theory Spec2Isabelle
  imports Complex_Main "HOL-Library.Word" "HOL-Library.Log_Nat"
begin

unbundle bit_operations_syntax

section \<open>Data model\<close>

text \<open>
  A grayscale image is a two-dimensional \<open>numpy\<close> array of \<open>uint8\<close> samples. It is
  modelled as the list of its rows; a \<open>numpy\<close> array is always rectangular, which
  \<open>wf_grid\<close> records together with the array's \<open>shape\<close>.
\<close>

type_synonym pixel = "8 word"
type_synonym grid = "pixel list list"
type_synonym mask = "bool list list"

definition wf_grid :: "nat \<Rightarrow> nat \<Rightarrow> 'a list list \<Rightarrow> bool" where
  "wf_grid h w g \<longleftrightarrow> length g = h \<and> list_all (\<lambda>row. length row = w) g"

section \<open>Thresholding and white-pixel counting\<close>

text \<open>
  \<^verbatim>\<open>
  def apply_threshold(arr, t):
      return np.where(arr <= t, np.uint8(0), np.uint8(255))

  def count_white(arr):
      return int(np.sum(arr == 255))
  \<close>
  The cutoff \<open>t\<close> is a Python integer; the comparison \<open>arr <= t\<close> is the comparison of
  the pixel's value with \<open>t\<close> as integers.
\<close>

definition apply_threshold :: "grid \<Rightarrow> int \<Rightarrow> grid" where
  "apply_threshold arr t = map (map (\<lambda>p. if uint p \<le> t then 0 else 255)) arr"

definition eq_scalar :: "grid \<Rightarrow> pixel \<Rightarrow> mask" where
  "eq_scalar arr v = map (map (\<lambda>p. p = v)) arr"

definition mask_and :: "mask \<Rightarrow> mask \<Rightarrow> mask" where
  "mask_and m1 m2 = map2 (map2 (\<and>)) m1 m2"

definition np_sum :: "mask \<Rightarrow> int" where
  "np_sum m = sum_list (map (\<lambda>row. int (length (filter id row))) m)"

definition count_white :: "grid \<Rightarrow> int" where
  "count_white arr = np_sum (eq_scalar arr 255)"

subsection \<open>The joint classification of two binarisations (from \<open>on_threshold\<close>)\<close>

text \<open>
  \<^verbatim>\<open>
  mask_diff = (bin1 == 255) & (bin2 == 0)
  mask_both_white = (bin1 == 255) & (bin2 == 255)
  mask_both_black = (bin1 == 0) & (bin2 == 0)
  diff_count = int(np.sum(mask_diff))
  \<close>
  The fourth class, white under the second cutoff only, is not computed by the code; its
  mask is written here the way the other three are.
\<close>

definition mask_diff :: "grid \<Rightarrow> grid \<Rightarrow> mask" where
  "mask_diff bin1 bin2 = mask_and (eq_scalar bin1 255) (eq_scalar bin2 0)"

definition mask_both_white :: "grid \<Rightarrow> grid \<Rightarrow> mask" where
  "mask_both_white bin1 bin2 = mask_and (eq_scalar bin1 255) (eq_scalar bin2 255)"

definition mask_both_black :: "grid \<Rightarrow> grid \<Rightarrow> mask" where
  "mask_both_black bin1 bin2 = mask_and (eq_scalar bin1 0) (eq_scalar bin2 0)"

definition mask_white2_only :: "grid \<Rightarrow> grid \<Rightarrow> mask" where
  "mask_white2_only bin1 bin2 = mask_and (eq_scalar bin1 0) (eq_scalar bin2 255)"

section \<open>Binary floating point\<close>

text \<open>
  Python floats and \<open>numpy.float64\<close> are IEEE 754 binary64 numbers, and every
  arithmetic operation returns the exact result rounded to the nearest representable
  number, ties to the even significand. Finite floats are rationals, so a float is
  modelled by its value in \<open>rat\<close> and an operation by the exact operation followed by
  \<open>fl\<close>. \<open>expo x\<close> is the binary exponent of a positive \<open>x\<close>, \<open>rhe\<close> rounds to the
  nearest integer, ties to even (it is also Python's \<open>round\<close> on a float), and \<open>fl\<close>
  rounds to 53 significant bits, with the fixed spacing \<open>2 powi (- 1074)\<close> below
  \<open>2 powi (- 1022)\<close>. Overflow (results of \<open>2 ^ 1024\<close> and more) is not modelled; no
  quantity of this development comes near it.
\<close>

definition expo :: "rat \<Rightarrow> int" where
  "expo x = (case quotient_of x of (a, b) \<Rightarrow>
               let e0 = bitlen a - bitlen b in if 2 powi e0 \<le> x then e0 else e0 - 1)"

definition rhe :: "rat \<Rightarrow> int" where
  "rhe y = (let f = \<lfloor>y\<rfloor>; d = y - of_int f
            in if d < 1 / 2 then f else if 1 / 2 < d then f + 1
               else if even f then f else f + 1)"

definition fl :: "rat \<Rightarrow> rat" where
  "fl x = (if x = 0 then 0
           else let q = 2 powi (max (expo \<bar>x\<bar>) (- 1022) - 52)
                in sgn x * of_int (rhe (\<bar>x\<bar> / q)) * q)"

section \<open>Histogram analysis\<close>

text \<open>
  \<^verbatim>\<open>
  def analyse_histogram(hist: list) -> dict:
      total = sum(hist)
      if total == 0:
          return {"skewed": False, "min_val": 0, "max_val": 255}
      cum, min_val = 0, 0
      for i in range(256):
          cum += hist[i]
          if cum / total >= 0.01:
              min_val = i
              break
      cum, max_val = 0, 255
      for i in range(255, -1, -1):
          cum += hist[i]
          if cum / total >= 0.01:
              max_val = i
              break
      return {"skewed": (max_val - min_val) < 200,
              "min_val": min_val, "max_val": max_val}
  \<close>
  The histogram is a Python list of integers. \<open>cum / total\<close> is the true division of
  two integers, which returns the quotient rounded to a float, and \<open>0.01\<close> is the float
  nearest to one hundredth. Reading \<open>hist[i]\<close> past the end of the list raises
  \<open>IndexError\<close>. A loop that ends without \<open>break\<close> leaves the initial bound in place.
  \<open>scan_up hist tot cum i n\<close> is the first loop with \<open>n\<close> iterations left, the next one
  reading index \<open>i\<close>; \<open>scan_down hist tot cum n\<close> is the second loop with \<open>n\<close> iterations
  left, the next one reading index \<open>n - 1\<close>.
\<close>

datatype py_error = IndexError | RuntimeError | ValueError

definition ge_one_percent :: "int \<Rightarrow> int \<Rightarrow> bool" where
  "ge_one_percent cum tot \<longleftrightarrow> fl (1 / 100) \<le> fl (of_int cum / of_int tot)"

record analysis =
  skewed :: bool
  min_val :: int
  max_val :: int

fun scan_up :: "int list \<Rightarrow> int \<Rightarrow> int \<Rightarrow> nat \<Rightarrow> nat \<Rightarrow> py_error + int" where
  "scan_up hist tot cum i 0 = Inr 0"
| "scan_up hist tot cum i (Suc n) =
     (if i < length hist then
        (let cum' = cum + hist ! i
         in if ge_one_percent cum' tot then Inr (int i)
            else scan_up hist tot cum' (Suc i) n)
      else Inl IndexError)"

fun scan_down :: "int list \<Rightarrow> int \<Rightarrow> int \<Rightarrow> nat \<Rightarrow> py_error + int" where
  "scan_down hist tot cum 0 = Inr 255"
| "scan_down hist tot cum (Suc i) =
     (if i < length hist then
        (let cum' = cum + hist ! i
         in if ge_one_percent cum' tot then Inr (int i)
            else scan_down hist tot cum' i)
      else Inl IndexError)"

definition analyse_histogram :: "int list \<Rightarrow> py_error + analysis" where
  "analyse_histogram hist =
     (let tot = sum_list hist
      in if tot = 0 then Inr \<lparr>skewed = False, min_val = 0, max_val = 255\<rparr>
         else case scan_up hist tot 0 0 256 of
                Inl e \<Rightarrow> Inl e
              | Inr mn \<Rightarrow>
                  (case scan_down hist tot 0 256 of
                     Inl e \<Rightarrow> Inl e
                   | Inr mx \<Rightarrow> Inr \<lparr>skewed = (mx - mn < 200), min_val = mn, max_val = mx\<rparr>))"

section \<open>Level adjustment\<close>

text \<open>
  \<^verbatim>\<open>
  def apply_level_adjustment(arr, mn, mx):
      r = mx - mn
      if r <= 0:
          return arr.copy()
      return np.clip((arr.astype(np.float64) - mn) / r * 255, 0, 255).astype(
          np.uint8
      )
  \<close>
  The pixel is converted to a float exactly; the Python integers \<open>mn\<close> and \<open>r\<close> are
  converted to floats when they meet the float array; the subtraction, the division and
  the multiplication each round their result. \<open>np.clip\<close> is the minimum with the upper
  bound of the maximum with the lower bound, and \<open>astype(np.uint8)\<close> on a float in
  the range of \<open>uint8\<close> drops the fractional part.
\<close>

definition np_clip :: "rat \<Rightarrow> rat \<Rightarrow> rat \<Rightarrow> rat" where
  "np_clip v lo hi = min (max v lo) hi"

definition astype_uint8 :: "rat \<Rightarrow> pixel" where
  "astype_uint8 v = word_of_int (if 0 \<le> v then \<lfloor>v\<rfloor> else \<lceil>v\<rceil>)"

definition adjust_pixel :: "int \<Rightarrow> int \<Rightarrow> pixel \<Rightarrow> pixel" where
  "adjust_pixel mn r p =
     astype_uint8 (np_clip
       (fl (fl (fl (of_int (uint p) - fl (of_int mn)) / fl (of_int r)) * 255)) 0 255)"

definition apply_level_adjustment :: "grid \<Rightarrow> int \<Rightarrow> int \<Rightarrow> grid" where
  "apply_level_adjustment arr mn mx =
     (let r = mx - mn
      in if r \<le> 0 then arr else map (map (adjust_pixel mn r)) arr)"

section \<open>Properties of thresholding\<close>

lemma map2_map_same:
  "map2 f (map g xs) (map h xs) = map (\<lambda>x. f (g x) (h x)) xs"
  by (induction xs) simp_all

lemma mask_of_thresholds:
  "mask_and (eq_scalar (apply_threshold G t1) a) (eq_scalar (apply_threshold G t2) b)
   = map (map (\<lambda>p. (if uint p \<le> t1 then 0 else 255) = a
                  \<and> (if uint p \<le> t2 then 0 else (255::pixel)) = b)) G"
  by (simp add: mask_and_def eq_scalar_def apply_threshold_def map2_map_same comp_def)

lemma np_sum_map:
  "np_sum (map (map P) G) = sum_list (map (\<lambda>row. int (length (filter P row))) G)"
  by (simp add: np_sum_def comp_def filter_map)

lemma count_white_threshold:
  "count_white (apply_threshold G t)
   = sum_list (map (\<lambda>row. int (length (filter (\<lambda>p. \<not> uint p \<le> t) row))) G)"
proof -
  have "eq_scalar (apply_threshold G t) 255 = map (map (\<lambda>p. \<not> uint p \<le> t)) G"
    by (simp add: eq_scalar_def apply_threshold_def comp_def)
  then show ?thesis
    by (simp add: count_white_def np_sum_map)
qed

lemma row_split2:
  "int (length (filter (\<lambda>p. P p \<and> Q p) xs)) + int (length (filter (\<lambda>p. P p \<and> \<not> Q p) xs))
   = int (length (filter P xs))"
  by (induction xs) auto

lemma row_split4:
  "int (length (filter (\<lambda>p. P p \<and> Q p) xs)) + int (length (filter (\<lambda>p. \<not> P p \<and> \<not> Q p) xs))
   + int (length (filter (\<lambda>p. P p \<and> \<not> Q p) xs)) + int (length (filter (\<lambda>p. \<not> P p \<and> Q p) xs))
   = int (length xs)"
  by (induction xs) auto

lemma wf_grid_size:
  "wf_grid h w G \<Longrightarrow> sum_list (map (\<lambda>row. int (length row)) G) = int h * int w"
  unfolding wf_grid_def
proof (induction G arbitrary: h)
  case Nil
  then show ?case by simp
next
  case (Cons row G)
  then obtain h' where h: "h = Suc h'" "length G = h'" by (cases h) auto
  with Cons have "sum_list (map (\<lambda>row. int (length row)) G) = int h' * int w"
    by simp
  with Cons.prems h show ?case by (simp add: algebra_simps)
qed

text \<open>
  C10. With the maximal cutoff 255 no pixel is white: every grid, also one holding
  pixels of value 255, is mapped to zeros by \<open>apply_threshold\<close>, and \<open>count_white\<close> of
  the result is 0.
\<close>

theorem threshold_255_all_black:
  "apply_threshold G 255 = map (map (\<lambda>p. 0)) G \<and> count_white (apply_threshold G 255) = 0"
proof -
  have le: "uint p \<le> 255" for p :: pixel
    using uint_bounded [of p] by simp
  have "apply_threshold G 255 = map (map (\<lambda>p. 0)) G"
    by (simp add: apply_threshold_def le)
  moreover have "count_white (apply_threshold G 255) = 0"
    by (simp add: count_white_threshold le)
  ultimately show ?thesis by simp
qed

lemma px_is_white:
  "(if c then (0::pixel) else 255) = 255 \<longleftrightarrow> \<not> c"
  "(if c then (0::pixel) else 255) = 0 \<longleftrightarrow> c"
  by auto

text \<open>
  C6. Thresholding is idempotent: for every grid and every cutoff \<open>t\<close> in [0,255],
  thresholding the thresholded grid again at \<open>t\<close> gives the thresholded grid, where a
  pixel becomes 0 if its value is at most \<open>t\<close> and 255 otherwise.
\<close>

theorem threshold_idempotent:
  "0 \<le> t \<Longrightarrow> t \<le> 255 \<Longrightarrow>
   apply_threshold (apply_threshold G t) t = apply_threshold G t
   \<and> apply_threshold G t = map (map (\<lambda>p. if uint p \<le> t then 0 else 255)) G"
proof -
  assume t: "0 \<le> t" "t \<le> 255"
  have "(if uint (if uint p \<le> t then 0 else 255 :: pixel) \<le> t then 0 else 255 :: pixel)
        = (if uint p \<le> t then 0 else 255)" for p :: pixel
  proof (cases "uint p \<le> t")
    case True
    with t show ?thesis by simp
  next
    case False
    have "uint p \<le> 255" using uint_bounded [of p] by simp
    with False t have "t < 255" by linarith
    with False show ?thesis by simp
  qed
  then show ?thesis
    by (simp add: apply_threshold_def comp_def)
qed

theorem threshold_idempotent_witness:
  "(0::int) \<le> 100 \<and> (100::int) \<le> 255
   \<and> apply_threshold (apply_threshold [[200, 50]] 100) 100 = apply_threshold [[200, 50]] 100
   \<and> apply_threshold [[200, 50]] 100 = [[255, 0]]"
  using threshold_idempotent [of 100 "[[200, 50]]"] by (simp add: apply_threshold_def)

lemma grid_split2:
  "sum_list (map (\<lambda>row. int (length (filter (\<lambda>p. P p \<and> Q p) row))) G)
   + sum_list (map (\<lambda>row. int (length (filter (\<lambda>p. P p \<and> \<not> Q p) row))) G)
   = sum_list (map (\<lambda>row. int (length (filter P row))) G)"
proof (induction G)
  case Nil
  show ?case by simp
next
  case (Cons a G)
  show ?case using Cons row_split2 [of P Q a] by simp
qed

lemma grid_split4:
  "sum_list (map (\<lambda>row. int (length (filter (\<lambda>p. P p \<and> Q p) row))) G)
   + sum_list (map (\<lambda>row. int (length (filter (\<lambda>p. \<not> P p \<and> \<not> Q p) row))) G)
   + sum_list (map (\<lambda>row. int (length (filter (\<lambda>p. P p \<and> \<not> Q p) row))) G)
   + sum_list (map (\<lambda>row. int (length (filter (\<lambda>p. \<not> P p \<and> Q p) row))) G)
   = sum_list (map (\<lambda>row. int (length row)) G)"
proof (induction G)
  case Nil
  show ?case by simp
next
  case (Cons a G)
  show ?case using Cons row_split4 [of P Q a] by simp
qed

text \<open>
  C5. For every grayscale grid \<open>G\<close> of height \<open>h\<close> and width \<open>w\<close> and cutoffs \<open>t1\<close>,
  \<open>t2\<close>, with \<open>B1 = apply_threshold G t1\<close> and \<open>B2 = apply_threshold G t2\<close>: the number of
  white pixels of \<open>B1\<close> is the number of both-white pixels plus the number of pixels white
  in \<open>B1\<close> only, and the four joint-classification counts sum to \<open>h * w\<close>.
\<close>

theorem diff_invariant:
  assumes "wf_grid h w G"
  shows "count_white (apply_threshold G t1)
         = np_sum (mask_both_white (apply_threshold G t1) (apply_threshold G t2))
           + np_sum (mask_diff (apply_threshold G t1) (apply_threshold G t2))
       \<and> np_sum (mask_both_white (apply_threshold G t1) (apply_threshold G t2))
         + np_sum (mask_both_black (apply_threshold G t1) (apply_threshold G t2))
         + np_sum (mask_diff (apply_threshold G t1) (apply_threshold G t2))
         + np_sum (mask_white2_only (apply_threshold G t1) (apply_threshold G t2))
         = int h * int w"
proof -
  let ?P = "\<lambda>p::pixel. \<not> uint p \<le> t1" and ?Q = "\<lambda>p::pixel. \<not> uint p \<le> t2"
  have bw: "np_sum (mask_both_white (apply_threshold G t1) (apply_threshold G t2))
            = sum_list (map (\<lambda>row. int (length (filter (\<lambda>p. ?P p \<and> ?Q p) row))) G)"
    unfolding mask_both_white_def mask_of_thresholds np_sum_map px_is_white ..
  have bb: "np_sum (mask_both_black (apply_threshold G t1) (apply_threshold G t2))
            = sum_list (map (\<lambda>row. int (length (filter (\<lambda>p. \<not> ?P p \<and> \<not> ?Q p) row))) G)"
    unfolding mask_both_black_def mask_of_thresholds np_sum_map px_is_white not_not ..
  have d: "np_sum (mask_diff (apply_threshold G t1) (apply_threshold G t2))
            = sum_list (map (\<lambda>row. int (length (filter (\<lambda>p. ?P p \<and> \<not> ?Q p) row))) G)"
    unfolding mask_diff_def mask_of_thresholds np_sum_map px_is_white not_not ..
  have w2: "np_sum (mask_white2_only (apply_threshold G t1) (apply_threshold G t2))
            = sum_list (map (\<lambda>row. int (length (filter (\<lambda>p. \<not> ?P p \<and> ?Q p) row))) G)"
    unfolding mask_white2_only_def mask_of_thresholds np_sum_map px_is_white not_not ..
  have one: "count_white (apply_threshold G t1)
         = np_sum (mask_both_white (apply_threshold G t1) (apply_threshold G t2))
           + np_sum (mask_diff (apply_threshold G t1) (apply_threshold G t2))"
    unfolding bw d count_white_threshold by (rule grid_split2 [symmetric])
  have four: "np_sum (mask_both_white (apply_threshold G t1) (apply_threshold G t2))
         + np_sum (mask_both_black (apply_threshold G t1) (apply_threshold G t2))
         + np_sum (mask_diff (apply_threshold G t1) (apply_threshold G t2))
         + np_sum (mask_white2_only (apply_threshold G t1) (apply_threshold G t2))
         = int h * int w"
    unfolding bw bb d w2 grid_split4 using assms by (rule wf_grid_size)
  from one four show ?thesis by (rule conjI)
qed

theorem diff_invariant_witness:
  "wf_grid 1 2 [[200, 50 :: pixel]]
   \<and> count_white (apply_threshold [[200, 50]] 100)
       = np_sum (mask_both_white (apply_threshold [[200, 50]] 100) (apply_threshold [[200, 50]] 210))
         + np_sum (mask_diff (apply_threshold [[200, 50]] 100) (apply_threshold [[200, 50]] 210))
   \<and> np_sum (mask_both_white (apply_threshold [[200, 50]] 100) (apply_threshold [[200, 50]] 210))
       + np_sum (mask_both_black (apply_threshold [[200, 50]] 100) (apply_threshold [[200, 50]] 210))
       + np_sum (mask_diff (apply_threshold [[200, 50]] 100) (apply_threshold [[200, 50]] 210))
       + np_sum (mask_white2_only (apply_threshold [[200, 50]] 100) (apply_threshold [[200, 50]] 210))
       = int 1 * int 2
   \<and> np_sum (mask_diff (apply_threshold [[200, 50]] 100) (apply_threshold [[200, 50]] 210)) = 1"
proof -
  have wf: "wf_grid 1 2 [[200, 50 :: pixel]]"
    by (simp add: wf_grid_def)
  have "np_sum (mask_diff (apply_threshold [[200, 50]] 100) (apply_threshold [[200, 50]] 210)) = 1"
    by (simp add: np_sum_def mask_diff_def mask_and_def eq_scalar_def apply_threshold_def)
  with wf diff_invariant [OF wf, of 100 210] show ?thesis by simp
qed

section \<open>Properties of rounding\<close>

lemma bitlen_powi:
  assumes "0 < a"
  shows "(2::rat) powi (bitlen a - 1) \<le> of_int a" "of_int a < (2::rat) powi (bitlen a)"
proof -
  from assms have b: "2 ^ nat (bitlen a - 1) \<le> a" "a < 2 ^ nat (bitlen a)"
    using bitlen_bounds [of a] by auto
  have pos: "1 \<le> bitlen a"
    using assms bitlen_eq_zero_iff [of a] bitlen_nonneg [of a] by linarith
  have "(2::rat) powi (bitlen a - 1) = of_int (2 ^ nat (bitlen a - 1))"
    using pos by (simp add: power_int_nonneg_exp)
  also have "\<dots> \<le> of_int a"
    using b(1) by (simp only: of_int_le_iff)
  finally show "(2::rat) powi (bitlen a - 1) \<le> of_int a" .
  have "(of_int a :: rat) < of_int (2 ^ nat (bitlen a))"
    using b(2) by (simp only: of_int_less_iff)
  also have "\<dots> = 2 powi (bitlen a)"
    using pos by (simp add: power_int_nonneg_exp)
  finally show "of_int a < (2::rat) powi (bitlen a)" .
qed

lemma expo_bounds:
  assumes "0 < x"
  shows "2 powi (expo x) \<le> x" "x < 2 powi (expo x + 1)"
proof -
  obtain a b where q: "quotient_of x = (a, b)" by (cases "quotient_of x")
  then have b: "0 < b" and x: "x = of_int a / of_int b"
    by (auto dest: quotient_of_denom_pos quotient_of_div)
  from assms x b have a: "0 < a"
    by (simp add: zero_less_divide_iff)
  let ?e0 = "bitlen a - bitlen b"
  have "x < 2 powi (bitlen a) / 2 powi (bitlen b - 1)"
    unfolding x using a b bitlen_powi [of a] bitlen_powi [of b]
    by (intro frac_less) simp_all
  then have up: "x < 2 powi (?e0 + 1)"
    by (simp add: power_int_diff power_int_add)
  have "2 powi (bitlen a - 1) / 2 powi (bitlen b) \<le> x"
    unfolding x using a b bitlen_powi [of a] bitlen_powi [of b]
    by (intro frac_le) simp_all
  then have lo: "2 powi (?e0 - 1) \<le> x"
    by (simp add: power_int_diff)
  have e: "expo x = (if 2 powi ?e0 \<le> x then ?e0 else ?e0 - 1)"
    by (simp add: expo_def q)
  show "2 powi (expo x) \<le> x"
    using lo by (simp add: e)
  show "x < 2 powi (expo x + 1)"
    using up by (simp add: e)
qed

lemma powi_two_less_imp:
  assumes "(2::rat) powi a < 2 powi b"
  shows "a < b"
proof (rule ccontr)
  assume "\<not> a < b"
  then have "(2::rat) powi b \<le> 2 powi a"
    by (intro power_int_increasing) simp_all
  with assms show False by simp
qed

lemma expo_eqI:
  assumes "2 powi e \<le> x" "x < 2 powi (e + 1)"
  shows "expo x = e"
proof -
  have "0 < (2::rat) powi e" by simp
  with assms have x: "0 < x" by linarith
  from expo_bounds [OF x] assms
  have "(2::rat) powi e < 2 powi (expo x + 1)" "(2::rat) powi (expo x) < 2 powi (e + 1)"
    by linarith+
  then have "e < expo x + 1" "expo x < e + 1"
    by (auto dest: powi_two_less_imp)
  then show ?thesis by linarith
qed

lemma rhe_cases:
  "rhe y = \<lfloor>y\<rfloor> \<and> y - of_int \<lfloor>y\<rfloor> \<le> 1 / 2
   \<or> rhe y = \<lfloor>y\<rfloor> + 1 \<and> 1 / 2 \<le> y - of_int \<lfloor>y\<rfloor>"
  by (auto simp: rhe_def Let_def)

lemma rhe_error: "\<bar>of_int (rhe y) - y\<bar> \<le> 1 / 2"
  using rhe_cases [of y] floor_correct [of y] by auto

lemma rhe_le: "y \<le> of_int k \<Longrightarrow> rhe y \<le> k"
proof -
  assume y: "y \<le> of_int k"
  then have f: "\<lfloor>y\<rfloor> \<le> k" by (simp add: floor_le_iff) 
  show ?thesis
  proof (cases "\<lfloor>y\<rfloor> = k")
    case True
    with y have "y = of_int \<lfloor>y\<rfloor>"
      using of_int_floor_le [of y] by simp
    then have "y - of_int \<lfloor>y\<rfloor> = 0" by simp
    then have "rhe y = \<lfloor>y\<rfloor>"
      by (simp add: rhe_def Let_def)
    with True show ?thesis by simp
  next
    case False
    with f have "\<lfloor>y\<rfloor> + 1 \<le> k" by simp
    with rhe_cases [of y] show ?thesis by auto
  qed
qed

lemma rhe_ge: "of_int k \<le> y \<Longrightarrow> k \<le> rhe y"
proof -
  assume "of_int k \<le> y"
  then have "k \<le> \<lfloor>y\<rfloor>" by (simp add: le_floor_iff)
  with rhe_cases [of y] show ?thesis by auto
qed

lemma rhe_of_int [simp]: "rhe (of_int k) = k"
  using rhe_le [of "of_int k" k] rhe_ge [of k "of_int k"] by simp

lemma rhe_eqI:
  assumes "\<bar>y - of_int m\<bar> < 1 / 2"
  shows "rhe y = m"
proof -
  from assms have lo: "of_int m - 1 / 2 < y" and hi: "y < of_int m + 1 / 2"
    by linarith+
  from hi have "y < of_int (m + 1)" by simp
  then have "\<lfloor>y\<rfloor> < m + 1" by (simp only: floor_less_iff)
  then have f1: "\<lfloor>y\<rfloor> \<le> m" by linarith
  from lo have "of_int (m - 1) \<le> y" by simp
  then have f2: "m - 1 \<le> \<lfloor>y\<rfloor>" by (simp only: le_floor_iff)
  from f1 f2 consider "\<lfloor>y\<rfloor> = m" | "\<lfloor>y\<rfloor> = m - 1" by linarith
  then show ?thesis
  proof cases
    case 1
    with hi have "y - of_int \<lfloor>y\<rfloor> < 1 / 2" by simp
    with 1 show ?thesis by (simp add: rhe_def Let_def)
  next
    case 2
    with lo have "1 / 2 < y - of_int \<lfloor>y\<rfloor>" by simp
    with 2 show ?thesis by (simp add: rhe_def Let_def)
  qed
qed

lemma rhe_odd_ge_iff:
  assumes "odd m"
  shows "m \<le> rhe y \<longleftrightarrow> of_int m - 1 / 2 < y"
proof
  assume r: "m \<le> rhe y"
  show "of_int m - 1 / 2 < y"
  proof (rule ccontr)
    assume "\<not> of_int m - 1 / 2 < y"
    then have y: "y \<le> of_int m - 1 / 2" by simp
    then have "y < of_int m" by linarith
    then have "\<lfloor>y\<rfloor> < m" by (simp only: floor_less_iff)
    then have f: "\<lfloor>y\<rfloor> \<le> m - 1" by linarith
    show False
    proof (cases "\<lfloor>y\<rfloor> = m - 1")
      case True
      with y have d: "y - of_int \<lfloor>y\<rfloor> \<le> 1 / 2" by simp
      from True assms have "even \<lfloor>y\<rfloor>" by simp
      with d have "rhe y = \<lfloor>y\<rfloor>" by (auto simp: rhe_def Let_def)
      with True r show False by simp
    next
      case False
      with f have "\<lfloor>y\<rfloor> + 1 \<le> m - 1" by simp
      with rhe_cases [of y] r show False by auto
    qed
  qed
next
  assume y: "of_int m - 1 / 2 < y"
  show "m \<le> rhe y"
  proof (cases "of_int m \<le> y")
    case True
    then show ?thesis by (rule rhe_ge)
  next
    case False
    with y have "\<bar>y - of_int m\<bar> < 1 / 2" by linarith
    then show ?thesis by (simp add: rhe_eqI)
  qed
qed

lemma powi_two_le_imp:
  assumes "(2::rat) powi a \<le> 2 powi b"
  shows "a \<le> b"
proof (rule ccontr)
  assume "\<not> a \<le> b"
  then have "(2::rat) powi b < 2 powi a"
    by (intro power_int_strict_increasing) simp_all
  with assms show False by simp
qed

lemma powi_two_nat: "0 \<le> k \<Longrightarrow> (2::rat) powi k = of_int (2 ^ nat k)"
  by (simp add: power_int_nonneg_exp)

lemma powi_two_add: "(2::rat) powi a * 2 powi b = 2 powi (a + b)"
  by (simp add: power_int_add)

lemma powi_two_52: "(2::rat) powi (e - 52) * of_int (2 ^ 52) = 2 powi e"
proof -
  have "(2::rat) powi (e - 52) * 2 powi (int 52) = 2 powi e"
    unfolding powi_two_add by simp
  then show ?thesis
    unfolding power_int_of_nat by simp
qed

lemma fl_pos:
  "0 < x \<Longrightarrow> fl x = of_int (rhe (x / 2 powi (max (expo x) (- 1022) - 52)))
                       * 2 powi (max (expo x) (- 1022) - 52)"
  by (simp add: fl_def Let_def)

lemma fl_minus: "fl (- x) = - fl x"
  by (simp add: fl_def Let_def)

lemma fl_zero [simp]: "fl 0 = 0"
  by (simp add: fl_def)

lemma fl_nonneg: "0 \<le> x \<Longrightarrow> 0 \<le> fl x"
proof (cases "x = 0")
  case False
  assume "0 \<le> x"
  with False have x: "0 < x" by simp
  have "0 \<le> x / 2 powi (max (expo x) (- 1022) - 52)"
    using x by simp
  then have "0 \<le> rhe (x / 2 powi (max (expo x) (- 1022) - 52))"
    using rhe_ge [of 0] by simp
  then show ?thesis
    by (simp add: fl_pos [OF x])
qed simp

lemma fl_nonpos: "x \<le> 0 \<Longrightarrow> fl x \<le> 0"
  using fl_nonneg [of "- x"] by (simp add: fl_minus)

lemma fl_eqI:
  assumes "2 powi e \<le> x" "x < 2 powi (e + 1)" "- 1022 \<le> e"
  shows "fl x = of_int (rhe (x * 2 powi (52 - e))) * 2 powi (e - 52)"
proof -
  have "0 < (2::rat) powi e" by simp
  with assms have x: "0 < x" by linarith
  have e: "expo x = e" using assms by (intro expo_eqI)
  have "x / 2 powi (e - 52) = x * 2 powi (52 - e)"
    using power_int_minus [of "2::rat" "e - 52"] by (simp add: divide_inverse)
  with assms(3) show ?thesis
    by (simp add: fl_pos [OF x] e max_def)
qed

lemma fl_error:
  assumes "2 powi e \<le> x" "x < 2 powi (e + 1)" "- 1022 \<le> e"
  shows "\<bar>fl x - x\<bar> \<le> 2 powi (e - 53)"
proof -
  let ?y = "x * 2 powi (52 - e)" and ?Q = "(2::rat) powi (e - 52)"
  have yQ: "?y * ?Q = x"
    by (simp add: mult.assoc powi_two_add)
  have "fl x - x = of_int (rhe ?y) * ?Q - ?y * ?Q"
    by (simp only: fl_eqI [OF assms] yQ)
  then have "fl x - x = (of_int (rhe ?y) - ?y) * ?Q"
    by (simp only: left_diff_distrib)
  then have "\<bar>fl x - x\<bar> = \<bar>of_int (rhe ?y) - ?y\<bar> * ?Q"
    by (simp add: abs_mult)
  also have "\<dots> \<le> 1 / 2 * ?Q"
    by (intro mult_right_mono rhe_error) simp
  also have "\<dots> = 2 powi (e - 53)"
    using power_int_add [of "2::rat" "e - 53" 1] by simp
  finally show ?thesis .
qed

lemma fl_exact:
  assumes "2 powi e \<le> x" "x < 2 powi (e + 1)" "- 1022 \<le> e"
    and "x * 2 powi (52 - e) = of_int m"
  shows "fl x = x"
proof -
  have "fl x = of_int m * 2 powi (e - 52)"
    by (simp add: fl_eqI [OF assms(1-3)] assms(4))
  also have "\<dots> = x * (2 powi (52 - e) * 2 powi (e - 52))"
    by (simp add: assms(4) [symmetric] mult.assoc)
  also have "\<dots> = x"
    by (simp add: powi_two_add)
  finally show ?thesis .
qed

lemma fl_ge_binade:
  assumes "2 powi e \<le> x" "x < 2 powi (e + 1)" "- 1022 \<le> e"
  shows "2 powi e \<le> fl x"
proof -
  have "of_int (2 ^ 52) \<le> x * 2 powi (52 - e)"
  proof -
    have "(2::rat) powi e * 2 powi (52 - e) \<le> x * 2 powi (52 - e)"
      using assms(1) by (intro mult_right_mono) simp_all
    then show ?thesis by (simp flip: power_int_add)
  qed
  then have "2 ^ 52 \<le> rhe (x * 2 powi (52 - e))" by (rule rhe_ge)
  then have "(of_int (2 ^ 52) :: rat) \<le> of_int (rhe (x * 2 powi (52 - e)))"
    by (simp only: of_int_le_iff)
  then have "of_int (2 ^ 52) * 2 powi (e - 52) \<le> fl x"
    unfolding fl_eqI [OF assms] by (intro mult_right_mono) simp_all
  moreover have "(of_int (2 ^ 52) :: rat) * 2 powi (e - 52) = 2 powi e"
    using powi_two_52 [of e] by (simp only: mult.commute)
  ultimately show ?thesis by (simp only:)
qed

lemma fl_ge_pow2:
  assumes "2 powi k \<le> x" "- 1022 \<le> k"
  shows "2 powi k \<le> fl x"
proof -
  have "0 < (2::rat) powi k" by simp
  with assms have x: "0 < x" by linarith
  from expo_bounds [OF x] assms(1) have "(2::rat) powi k < 2 powi (expo x + 1)"
    by linarith
  then have ke: "k \<le> expo x" by (auto dest: powi_two_less_imp)
  with assms(2) have "- 1022 \<le> expo x" by simp
  with expo_bounds [OF x] have "2 powi (expo x) \<le> fl x"
    by (intro fl_ge_binade)
  moreover have "(2::rat) powi k \<le> 2 powi (expo x)"
    using ke by (intro power_int_increasing) simp_all
  ultimately show ?thesis by linarith
qed

lemma fl_le_pow2:
  assumes "0 < x" "x \<le> 2 powi k" "- 1022 \<le> k"
  shows "fl x \<le> 2 powi k"
proof -
  define e where "e = max (expo x) (- 1022)"
  define d where "d = k - e + 52"
  from expo_bounds(1) [OF assms(1)] assms(2) have "(2::rat) powi (expo x) \<le> 2 powi k"
    by linarith
  then have "expo x \<le> k" by (rule powi_two_le_imp)
  with assms(3) have d: "0 \<le> d" by (simp add: d_def e_def)
  have k: "(2::rat) powi k = 2 powi d * 2 powi (e - 52)"
    unfolding powi_two_add by (simp add: d_def)
  have "x / 2 powi (e - 52) \<le> 2 powi k / 2 powi (e - 52)"
    using assms(2) by (intro divide_right_mono) simp_all
  also have "\<dots> = 2 powi d"
    by (simp add: k)
  also have "\<dots> = of_int (2 ^ nat d)"
    using d by (rule powi_two_nat)
  finally have "rhe (x / 2 powi (e - 52)) \<le> 2 ^ nat d"
    by (rule rhe_le)
  then have "(of_int (rhe (x / 2 powi (e - 52))) :: rat) \<le> of_int (2 ^ nat d)"
    by (simp only: of_int_le_iff)
  then have "of_int (rhe (x / 2 powi (e - 52))) * 2 powi (e - 52)
             \<le> of_int (2 ^ nat d) * (2::rat) powi (e - 52)"
    by (intro mult_right_mono) simp_all
  then have "fl x \<le> of_int (2 ^ nat d) * 2 powi (e - 52)"
    by (simp only: fl_pos [OF assms(1)] e_def)
  also have "\<dots> = 2 powi d * 2 powi (e - 52)"
    using d by (simp only: powi_two_nat)
  also have "\<dots> = 2 powi k"
    by (simp only: k)
  finally show ?thesis .
qed

lemma one_less_powi_two_imp: "1 < (2::rat) powi b \<Longrightarrow> 0 < b"
  using powi_two_less_imp [of 0 b] by simp

lemma fl_error_upto:
  assumes "2 powi lo \<le> x" "x < 2 powi hi" "- 1022 \<le> lo"
  shows "\<bar>fl x - x\<bar> \<le> 2 powi (hi - 54)"
proof -
  have "0 < (2::rat) powi lo" by simp
  with assms have x: "0 < x" by linarith
  from expo_bounds [OF x] assms
  have "(2::rat) powi lo < 2 powi (expo x + 1)" "(2::rat) powi (expo x) < 2 powi hi"
    by linarith+
  then have e: "lo \<le> expo x" "expo x \<le> hi - 1"
    by (auto dest: powi_two_less_imp)
  with assms(3) have "- 1022 \<le> expo x" by simp
  with expo_bounds [OF x] have "\<bar>fl x - x\<bar> \<le> 2 powi (expo x - 53)"
    by (intro fl_error)
  also have "\<dots> \<le> 2 powi (hi - 54)"
    using e by (intro power_int_increasing) simp_all
  finally show ?thesis .
qed

lemma fl_of_int_pos:
  assumes "0 < n" "n < 2 ^ 53"
  shows "fl (of_int n) = of_int n"
proof -
  let ?x = "of_int n :: rat"
  have x: "0 < ?x" using assms by simp
  have "?x < of_int (2 ^ 53)" using assms(2) by (simp only: of_int_less_iff)
  then have "?x < 2 powi 53" by simp
  with expo_bounds(1) [OF x] have "(2::rat) powi (expo ?x) < 2 powi 53" by linarith
  then have hi: "expo ?x < 53" by (rule powi_two_less_imp)
  have "(1::rat) \<le> ?x" using assms(1) by simp
  with expo_bounds(2) [OF x] have "1 < (2::rat) powi (expo ?x + 1)" by simp
  then have lo: "0 \<le> expo ?x" by (auto dest: one_less_powi_two_imp)
  have "0 \<le> 52 - expo ?x" using hi by simp
  then have "(2::rat) powi (52 - expo ?x) = of_int (2 ^ nat (52 - expo ?x))"
    by (rule powi_two_nat)
  then have m: "?x * 2 powi (52 - expo ?x) = of_int (n * 2 ^ nat (52 - expo ?x))"
    by (simp only: of_int_mult)
  have ge: "- 1022 \<le> expo ?x" using lo by simp
  show ?thesis
    by (rule fl_exact [OF expo_bounds(1) [OF x] expo_bounds(2) [OF x] ge m])
qed

lemma fl_of_int:
  assumes "\<bar>n\<bar> < 2 ^ 53"
  shows "fl (of_int n) = of_int n"
proof -
  consider "n = 0" | "0 < n" | "n < 0" by linarith
  then show ?thesis
  proof cases
    case 1
    then show ?thesis by simp
  next
    case 2
    with assms show ?thesis by (intro fl_of_int_pos) simp_all
  next
    case 3
    with assms have "fl (of_int (- n)) = of_int (- n)"
      by (intro fl_of_int_pos) simp_all
    then show ?thesis by (simp add: fl_minus)
  qed
qed

lemma fl_ge_int:
  assumes "of_int k \<le> y" "0 < k" "k < 2 ^ 53"
  shows "of_int k \<le> fl y"
proof -
  have y: "0 < y" using assms by (simp add: less_le_trans)
  let ?e = "expo y"
  have "(1::rat) \<le> of_int k" using assms(2) by simp
  with assms(1) expo_bounds(2) [OF y] have "1 < (2::rat) powi (?e + 1)" by simp
  then have lo: "0 \<le> ?e" by (auto dest: one_less_powi_two_imp)
  show ?thesis
  proof (cases "?e \<le> 52")
    case True
    then have "0 \<le> 52 - ?e" by simp
    then have pw: "(2::rat) powi (52 - ?e) = of_int (2 ^ nat (52 - ?e))"
      by (rule powi_two_nat)
    have km: "(of_int (k * 2 ^ nat (52 - ?e)) :: rat) = of_int k * 2 powi (52 - ?e)"
      by (simp only: pw of_int_mult)
    have "of_int k * (2::rat) powi (52 - ?e) \<le> y * 2 powi (52 - ?e)"
      using assms(1) by (intro mult_right_mono) simp_all
    then have "of_int (k * 2 ^ nat (52 - ?e)) \<le> y * 2 powi (52 - ?e)"
      by (simp only: km)
    then have "k * 2 ^ nat (52 - ?e) \<le> rhe (y * 2 powi (52 - ?e))"
      by (rule rhe_ge)
    then have "(of_int (k * 2 ^ nat (52 - ?e)) :: rat) \<le> of_int (rhe (y * 2 powi (52 - ?e)))"
      by (simp only: of_int_le_iff)
    then have "of_int (k * 2 ^ nat (52 - ?e)) * 2 powi (?e - 52)
               \<le> of_int (rhe (y * 2 powi (52 - ?e))) * (2::rat) powi (?e - 52)"
      by (intro mult_right_mono) simp_all
    also have "\<dots> = fl y"
      using expo_bounds [OF y] lo by (intro fl_eqI [symmetric]) simp_all
    finally have "of_int (k * 2 ^ nat (52 - ?e)) * 2 powi (?e - 52) \<le> fl y" .
    moreover have "(of_int (k * 2 ^ nat (52 - ?e)) :: rat) * 2 powi (?e - 52) = of_int k"
    proof -
      have "(2::rat) powi (52 - ?e) * 2 powi (?e - 52) = 1"
        unfolding powi_two_add by simp
      then show ?thesis
        unfolding km by (simp only: mult.assoc mult_1_right)
    qed
    ultimately show ?thesis by (simp only:)
  next
    case False
    then have "(2::rat) powi 53 \<le> 2 powi ?e"
      by (intro power_int_increasing) simp_all
    moreover have "2 powi ?e \<le> fl y"
      using expo_bounds [OF y] lo by (intro fl_ge_binade) simp_all
    moreover have "(of_int k :: rat) < of_int (2 ^ 53)"
      using assms(3) by (simp only: of_int_less_iff)
    ultimately show ?thesis by simp
  qed
qed

lemma fl_pow2_over_255:
  assumes "- 1000 \<le> E"
  shows "fl (fl (2 powi E / 255) * 255) = 2 powi E"
proof -
  define x0 where "x0 = (2::rat) powi E / 255"
  define u where "u = (2::rat) powi (E - 60)"
  have u: "0 < u" by (simp add: u_def)
  have pw: "(2::rat) powi E = u * 2 ^ 60" "(2::rat) powi (E - 8) = u * 2 ^ 52"
    "(2::rat) powi (E - 8 + 1) = u * 2 ^ 53" "(2::rat) powi (E - 1) = u * 2 ^ 59"
    "(2::rat) powi (E - 1 + 1) = u * 2 ^ 60"
    using powi_two_add [of "E - 60" 60] powi_two_add [of "E - 60" 52]
      powi_two_add [of "E - 60" 53] powi_two_add [of "E - 60" 59]
    by (simp_all add: u_def)
  have x0: "x0 = u * 2 ^ 60 / 255" by (simp only: x0_def pw)
  have b1: "2 powi (E - 8) \<le> x0" unfolding pw x0 using u by simp
  have b2: "x0 < 2 powi (E - 8 + 1)" unfolding pw x0 using u by simp
  have ui: "u * 2 powi (52 - (E - 8)) = 1" "u * 2 powi (52 - (E - 1)) = 1 / 2 ^ 7"
    unfolding u_def powi_two_add by simp_all
  have "x0 * 2 powi (52 - (E - 8)) = 2 ^ 60 / 255 * (u * 2 powi (52 - (E - 8)))"
    by (simp only: x0) simp
  then have s: "x0 * 2 powi (52 - (E - 8)) = 2 ^ 60 / 255"
    by (simp only: ui mult_1_right)
  have r1: "rhe (2 ^ 60 / 255) = 4521260802379792"
    by (rule rhe_eqI) simp
  have "fl x0 = of_int (rhe (x0 * 2 powi (52 - (E - 8)))) * 2 powi (E - 8 - 52)"
    using b1 b2 assms by (intro fl_eqI) simp_all
  then have "fl x0 = of_int 4521260802379792 * 2 powi (E - 8 - 52)"
    by (simp only: s r1)
  then have x: "fl x0 = 4521260802379792 * u"
    by (simp add: u_def)
  define y0 where "y0 = fl x0 * 255"
  have y0: "y0 = u * (2 ^ 60 - 16)" by (simp add: y0_def x)
  have c1: "2 powi (E - 1) \<le> y0" unfolding pw y0 using u by simp
  have c2: "y0 < 2 powi (E - 1 + 1)" unfolding pw y0 using u by simp
  have "y0 * 2 powi (52 - (E - 1)) = (2 ^ 60 - 16) * (u * 2 powi (52 - (E - 1)))"
    by (simp only: y0) simp
  then have t: "y0 * 2 powi (52 - (E - 1)) = (2 ^ 60 - 16) / 2 ^ 7"
    by (simp only: ui) simp
  have r2: "rhe ((2 ^ 60 - 16) / 2 ^ 7) = 2 ^ 53"
    by (rule rhe_eqI) simp
  have "fl y0 = of_int (rhe (y0 * 2 powi (52 - (E - 1)))) * 2 powi (E - 1 - 52)"
    using c1 c2 assms by (intro fl_eqI) simp_all
  then have "fl y0 = of_int (2 ^ 53) * 2 powi (E - 1 - 52)"
    by (simp only: t r2)
  then have "fl y0 = 2 ^ 53 * 2 powi (E - 1 - 52)"
    by simp
  also have "\<dots> = 2 powi E"
    using powi_two_add [of 53 "E - 1 - 52"] by simp
  finally show ?thesis by (simp only: y0_def x0_def)
qed

lemma fl_scale_255_mid:
  assumes n: "1 \<le> n" "n \<le> 254"
  shows "fl (fl (of_int n / 255) * 255) = of_int n"
proof -
  let ?n = "of_int n :: rat"
  have npos: "0 < ?n" using n by simp
  define E where "E = expo ?n"
  have bn: "2 powi E \<le> ?n" "?n < 2 powi (E + 1)"
    using expo_bounds [OF npos] by (simp_all add: E_def)
  have "(1::rat) \<le> ?n" using n by simp
  with bn(2) have "1 < (2::rat) powi (E + 1)" by simp
  then have E0: "0 \<le> E" by (auto dest: one_less_powi_two_imp)
  have "?n < of_int 256" using n by (simp only: of_int_less_iff)
  with bn(1) have "(2::rat) powi E < 2 powi 8" by simp
  then have "E < 8" by (rule powi_two_less_imp)
  then have E7: "E \<le> 7" by simp
  define P where "P = (2::int) ^ nat E"
  have p: "(2::rat) powi E = of_int P"
    using E0 by (simp only: P_def powi_two_nat)
  have p2: "(2::rat) powi (E + 1) = of_int (2 * P)"
    using powi_two_add [of E 1] by (simp add: p)
  from bn have Pn: "P \<le> n" "n < 2 * P"
    unfolding p p2 by (simp_all only: of_int_le_iff of_int_less_iff)
  show ?thesis
  proof (cases "n = P")
    case True
    then have "?n = 2 powi E" by (simp only: p)
    with E0 show ?thesis
      using fl_pow2_over_255 [of E] by simp
  next
    case False
    with Pn have Pn1: "P + 1 \<le> n" "n + 1 \<le> 2 * P" by simp_all
    define q where "q = (2::rat) powi (E - 52)"
    define qi where "qi = (2::rat) powi (52 - E)"
    have q: "0 < q" "0 < qi" by (simp_all add: q_def qi_def)
    have qqi: "q * qi = 1" unfolding q_def qi_def powi_two_add by simp
    have "q \<le> 2 powi (- 45)"
      unfolding q_def using E7 by (intro power_int_increasing) simp_all
    then have q1: "q < 1" by simp
    have P128: "P \<le> 128"
    proof -
      have "(2::rat) powi E \<le> 2 powi 7"
        using E7 by (intro power_int_increasing) simp_all
      then have "(of_int P :: rat) \<le> of_int 128" by (simp add: p)
      then show ?thesis by (simp only: of_int_le_iff)
    qed
    define x0 where "x0 = ?n / 255"
    have e8: "(2::rat) powi (E - 8) = of_int P / 256" "(2::rat) powi (E - 8 + 1) = of_int P / 128"
      using powi_two_add [of "E - 8" 8] powi_two_add [of "E - 8 + 1" 7] by (simp_all add: p)
    have "(of_int P :: rat) \<le> of_int n" "(of_int (n + 1) :: rat) \<le> of_int (2 * P)"
      "(of_int n :: rat) \<le> of_int 254" "(of_int P :: rat) \<le> of_int 128"
      "(of_int (P + 1) :: rat) \<le> of_int n"
      using Pn Pn1 n P128 by (simp_all only: of_int_le_iff)
    then have rP: "(of_int P :: rat) \<le> ?n" "?n + 1 \<le> 2 * of_int P" "?n \<le> 254"
      "(of_int P :: rat) \<le> 128" "(of_int P :: rat) + 1 \<le> ?n"
      by simp_all
    have b1: "2 powi (E - 8) \<le> x0"
      unfolding e8 x0_def using rP npos by simp
    have b2: "x0 < 2 powi (E - 8 + 1)"
      unfolding e8 x0_def using rP by simp
    have "\<bar>fl x0 - x0\<bar> \<le> 2 powi (E - 8 - 53)"
      using b1 b2 E0 by (intro fl_error) simp_all
    moreover have "(2::rat) powi (E - 8 - 53) = q / 2 ^ 9"
      using powi_two_add [of "E - 8 - 53" 9] by (simp add: q_def)
    ultimately have err: "\<bar>fl x0 - x0\<bar> \<le> q / 2 ^ 9" by simp
    define y0 where "y0 = fl x0 * 255"
    have "y0 - ?n = 255 * (fl x0 - x0)" by (simp add: y0_def x0_def)
    then have "\<bar>y0 - ?n\<bar> = \<bar>255\<bar> * \<bar>fl x0 - x0\<bar>" by (simp only: abs_mult)
    then have "\<bar>y0 - ?n\<bar> = 255 * \<bar>fl x0 - x0\<bar>" by simp
    with err q have yn: "\<bar>y0 - ?n\<bar> < q / 2" by simp
    have c1: "2 powi E \<le> y0"
      unfolding p using yn q1 rP by linarith
    have p2': "(2::rat) powi (E + 1) = 2 * of_int P"
      by (simp add: p2)
    have c2: "y0 < 2 powi (E + 1)"
      unfolding p2' using yn q1 rP by linarith
    define N where "N = n * 2 ^ nat (52 - E)"
    have "0 \<le> 52 - E" using E7 by simp
    then have "qi = of_int (2 ^ nat (52 - E))"
      unfolding qi_def by (rule powi_two_nat)
    then have N: "of_int N = ?n * qi" by (simp only: N_def of_int_mult)
    have "y0 * qi - of_int N = (y0 - ?n) * qi"
      by (simp only: N left_diff_distrib)
    then have "\<bar>y0 * qi - of_int N\<bar> = \<bar>y0 - ?n\<bar> * qi"
      using q by (simp add: abs_mult)
    also have "\<dots> < q / 2 * qi"
      using yn q by (intro mult_strict_right_mono)
    also have "\<dots> = 1 / 2" using qqi by simp
    finally have "rhe (y0 * qi) = N" by (rule rhe_eqI)
    moreover have "fl y0 = of_int (rhe (y0 * 2 powi (52 - E))) * 2 powi (E - 52)"
      using c1 c2 E0 by (intro fl_eqI) simp_all
    ultimately have "fl y0 = of_int N * q"
      by (simp only: q_def qi_def)
    also have "\<dots> = ?n * (q * qi)" by (simp only: N) simp
    also have "\<dots> = ?n" by (simp only: qqi mult_1_right)
    finally show ?thesis by (simp only: y0_def x0_def)
  qed
qed

lemma fl_scale_255:
  assumes "0 \<le> n" "n \<le> 255"
  shows "fl (fl (of_int n / 255) * 255) = of_int n"
proof -
  consider "n = 0" | "n = 255" | "1 \<le> n" "n \<le> 254" using assms by linarith
  then show ?thesis
  proof cases
    case 1
    then show ?thesis by simp
  next
    case 2
    have "fl (of_int 1) = of_int 1" "fl (of_int 255) = of_int 255"
      by (rule fl_of_int, simp)+
    with 2 show ?thesis by simp
  next
    case 3
    then show ?thesis by (rule fl_scale_255_mid)
  qed
qed

section \<open>Properties of the histogram analysis\<close>

lemma fl_one_percent: "fl (1 / 100) = 5764607523034235 / 2 ^ 59"
proof -
  have "rhe (1 / 100 * 2 powi (52 - (- 7))) = 5764607523034235"
    by (rule rhe_eqI) simp
  moreover have "fl (1 / 100) = of_int (rhe (1 / 100 * 2 powi (52 - (- 7)))) * 2 powi (- 7 - 52)"
    by (rule fl_eqI) simp_all
  ultimately show ?thesis by simp
qed

lemma ge_one_percent_rat:
  "fl (1 / 100) \<le> fl q \<longleftrightarrow> 11529215046068469 / 2 ^ 60 < q"
proof -
  consider "q \<le> 0" | "0 < q" "q < 2 powi (- 7)" | "2 powi (- 7) \<le> q" "q < 2 powi (- 6)"
    | "2 powi (- 6) \<le> q" by linarith
  then show ?thesis
  proof cases
    case 1
    then have "fl q \<le> 0" by (rule fl_nonpos)
    with 1 show ?thesis by (simp add: fl_one_percent)
  next
    case 2
    then have "fl q \<le> 2 powi (- 7)" by (intro fl_le_pow2) simp_all
    with 2 show ?thesis by (simp add: fl_one_percent)
  next
    case 3
    have "fl q = of_int (rhe (q * 2 powi (52 - (- 7)))) * 2 powi (- 7 - 52)"
      using 3 by (intro fl_eqI) simp_all
    then have f: "fl q = of_int (rhe (q * 2 ^ 59)) / 2 ^ 59" by simp
    have "fl (1 / 100) \<le> fl q \<longleftrightarrow> (of_int 5764607523034235 :: rat) \<le> of_int (rhe (q * 2 ^ 59))"
      unfolding f fl_one_percent by (simp add: divide_le_cancel)
    also have "\<dots> \<longleftrightarrow> 5764607523034235 \<le> rhe (q * 2 ^ 59)"
      by (simp only: of_int_le_iff)
    also have "\<dots> \<longleftrightarrow> of_int 5764607523034235 - 1 / 2 < q * 2 ^ 59"
      by (rule rhe_odd_ge_iff) simp
    also have "\<dots> \<longleftrightarrow> 11529215046068469 / 2 ^ 60 < q"
      by simp linarith
    finally show ?thesis .
  next
    case 4
    then have "2 powi (- 6) \<le> fl q" by (intro fl_ge_pow2) simp_all
    with 4 show ?thesis by (simp add: fl_one_percent)
  qed
qed

lemma ge_one_percent_iff:
  assumes "0 < tot"
  shows "ge_one_percent cum tot \<longleftrightarrow> 11529215046068469 * tot < cum * 2 ^ 60"
proof -
  have "11529215046068469 * tot < cum * 2 ^ 60
        \<longleftrightarrow> (of_int (11529215046068469 * tot) :: rat) < of_int (cum * 2 ^ 60)"
    by (simp only: of_int_less_iff)
  also have "\<dots> \<longleftrightarrow> 11529215046068469 / 2 ^ 60 < (of_int cum / of_int tot :: rat)"
    using assms by (simp add: field_simps)
  finally show ?thesis
    by (simp add: ge_one_percent_def ge_one_percent_rat)
qed

lemma scan_up_step:
  "scan_up hist tot cum i (numeral k) =
     (if i < length hist then
        (let cum' = cum + hist ! i
         in if ge_one_percent cum' tot then Inr (int i)
            else scan_up hist tot cum' (Suc i) (pred_numeral k))
      else Inl IndexError)"
  by (simp add: numeral_eq_Suc)

lemma scan_down_step:
  "scan_down hist tot cum (numeral k) =
     (if pred_numeral k < length hist then
        (let cum' = cum + hist ! pred_numeral k
         in if ge_one_percent cum' tot then Inr (int (pred_numeral k))
            else scan_down hist tot cum' (pred_numeral k))
      else Inl IndexError)"
  by (simp add: numeral_eq_Suc)

text \<open>
  C1 (as amended). For the histogram of 256 bins holding 100 each (25600 pixels),
  \<open>analyse_histogram\<close> returns \<open>min_val = 2\<close>, \<open>max_val = 253\<close> and \<open>skewed = False\<close>: one
  bin holds 100 / 25600 of the pixels, less than one hundredth, and three bins are
  needed to reach it from either end.
\<close>

theorem uniform_histogram_analysis:
  "analyse_histogram (replicate 256 100)
   = Inr \<lparr>skewed = False, min_val = 2, max_val = 253\<rparr>"
  by (simp add: analyse_histogram_def Let_def scan_up_step scan_down_step
      ge_one_percent_iff sum_list_replicate)

text \<open>
  The bounds 0 and 255 are not what \<open>analyse_histogram\<close> returns for that histogram.
\<close>

theorem uniform_histogram_counterexample:
  "analyse_histogram (replicate 256 100)
   \<noteq> Inr \<lparr>skewed = False, min_val = 0, max_val = 255\<rparr>"
  by (simp add: analyse_histogram_def Let_def scan_up_step scan_down_step
      ge_one_percent_iff sum_list_replicate)

lemma scan_up_total:
  "i + n \<le> length hist \<Longrightarrow> \<exists>m. scan_up hist tot cum i n = Inr m"
  by (induction n arbitrary: i cum) (auto simp: Let_def)

lemma scan_down_total:
  "n \<le> length hist \<Longrightarrow> \<exists>m. scan_down hist tot cum n = Inr m"
  by (induction n arbitrary: cum) (auto simp: Let_def)

lemma scan_up_spec:
  "scan_up hist tot (sum_list (take i hist)) i n = Inr m \<Longrightarrow> i + n \<le> length hist \<Longrightarrow>
   (m = 0 \<or> (int i \<le> m \<and> m < int (i + n)))
   \<and> (int i < m \<longrightarrow> \<not> ge_one_percent (sum_list (take (nat m) hist)) tot)"
proof (induction n arbitrary: i)
  case 0
  then show ?case by simp
next
  case (Suc n)
  from Suc.prems have i: "i < length hist" by simp
  then have tk: "sum_list (take i hist) + hist ! i = sum_list (take (Suc i) hist)"
    by (simp add: take_Suc_conv_app_nth)
  show ?case
  proof (cases "ge_one_percent (sum_list (take (Suc i) hist)) tot")
    case True
    with Suc.prems i tk show ?thesis by (simp add: Let_def)
  next
    case False
    with Suc.prems i tk
    have r: "scan_up hist tot (sum_list (take (Suc i) hist)) (Suc i) n = Inr m"
      by (simp add: Let_def)
    from Suc.IH [OF r] Suc.prems(2)
    have ih: "m = 0 \<or> (int (Suc i) \<le> m \<and> m < int (Suc i + n))"
      "int (Suc i) < m \<longrightarrow> \<not> ge_one_percent (sum_list (take (nat m) hist)) tot"
      by simp_all
    have "\<not> ge_one_percent (sum_list (take (nat m) hist)) tot" if "int i < m"
    proof (cases "m = int (Suc i)")
      case True
      then have "nat m = Suc i" by simp
      with False show ?thesis by simp
    next
      case False
      with that ih(2) show ?thesis by simp
    qed
    with ih(1) show ?thesis by auto
  qed
qed

lemma scan_down_spec:
  "scan_down hist tot (sum_list (drop n hist)) n = Inr m \<Longrightarrow> n \<le> length hist \<Longrightarrow> n \<le> 256 \<Longrightarrow>
   (m = 255 \<or> (0 \<le> m \<and> m < int n))
   \<and> (m + 1 < int n \<longrightarrow> \<not> ge_one_percent (sum_list (drop (nat (m + 1)) hist)) tot)"
proof (induction n)
  case 0
  then show ?case by simp
next
  case (Suc i)
  from Suc.prems have i: "i < length hist" by simp
  then have dr: "sum_list (drop (Suc i) hist) + hist ! i = sum_list (drop i hist)"
    using Cons_nth_drop_Suc [OF i, symmetric] by simp
  show ?case
  proof (cases "ge_one_percent (sum_list (drop i hist)) tot")
    case True
    with Suc.prems i dr show ?thesis by (simp add: Let_def)
  next
    case False
    with Suc.prems i dr
    have r: "scan_down hist tot (sum_list (drop i hist)) i = Inr m"
      by (simp add: Let_def)
    from Suc.IH [OF r] Suc.prems
    have ih: "m = 255 \<or> (0 \<le> m \<and> m < int i)"
      "m + 1 < int i \<longrightarrow> \<not> ge_one_percent (sum_list (drop (nat (m + 1)) hist)) tot"
      by simp_all
    have "\<not> ge_one_percent (sum_list (drop (nat (m + 1)) hist)) tot" if "m + 1 < int (Suc i)"
    proof (cases "m + 1 = int i")
      case True
      then have "nat (m + 1) = i" by simp
      with False show ?thesis by simp
    next
      case False
      with that ih(2) show ?thesis by simp
    qed
    with ih(1) show ?thesis by auto
  qed
qed

lemma sum_list_drop_mono:
  assumes "\<forall>x\<in>set xs. (0::int) \<le> x" "a \<le> b"
  shows "sum_list (drop b xs) \<le> sum_list (drop a xs)"
proof -
  have "sum_list (take (b - a) (drop a xs) @ drop (b - a) (drop a xs))
        = sum_list (drop a xs)"
    by (simp only: append_take_drop_id)
  moreover have "drop (b - a) (drop a xs) = drop b xs"
    using assms(2) by simp
  ultimately have "sum_list (drop a xs)
             = sum_list (take (b - a) (drop a xs)) + sum_list (drop b xs)"
    by (simp only: sum_list_append)
  moreover have "0 \<le> sum_list (take (b - a) (drop a xs))"
    using assms(1) by (intro sum_list_nonneg) (auto dest!: in_set_takeD in_set_dropD)
  ultimately show ?thesis by simp
qed

text \<open>
  C4. For every histogram of 256 non-negative bins whose total is positive,
  \<open>analyse_histogram\<close> returns an analysis with \<open>min_val \<le> max_val\<close> whose \<open>skewed\<close>
  flag is true exactly when \<open>max_val - min_val < 200\<close>.
\<close>

theorem analysis_bounds_ordered:
  assumes len: "length hist = 256"
    and nonneg: "\<forall>x\<in>set hist. 0 \<le> x"
    and pos: "0 < sum_list hist"
  shows "\<exists>a. analyse_histogram hist = Inr a \<and> min_val a \<le> max_val a
             \<and> (skewed a \<longleftrightarrow> max_val a - min_val a < 200)"
proof -
  let ?tot = "sum_list hist"
  obtain mn where mn: "scan_up hist ?tot 0 0 256 = Inr mn"
    using scan_up_total [of 0 256 hist ?tot 0] len by auto
  obtain mx where mx: "scan_down hist ?tot 0 256 = Inr mx"
    using scan_down_total [of 256 hist ?tot 0] len by auto
  from scan_up_spec [of hist ?tot 0 256 mn] mn len
  have up: "0 \<le> mn" "mn < 256"
    "0 < mn \<longrightarrow> \<not> ge_one_percent (sum_list (take (nat mn) hist)) ?tot"
    by auto
  from scan_down_spec [of hist ?tot 256 mx] mx len
  have down: "0 \<le> mx" "mx < 256"
    "mx + 1 < 256 \<longrightarrow> \<not> ge_one_percent (sum_list (drop (nat (mx + 1)) hist)) ?tot"
    by auto
  have "mn \<le> mx"
  proof (rule ccontr)
    assume "\<not> mn \<le> mx"
    then have lt: "mx < mn" by simp
    with up down have p: "\<not> ge_one_percent (sum_list (take (nat mn) hist)) ?tot"
      and s: "\<not> ge_one_percent (sum_list (drop (nat (mx + 1)) hist)) ?tot"
      by auto
    from lt down(1) have "nat (mx + 1) \<le> nat mn" by simp
    with nonneg have "sum_list (drop (nat mn) hist) \<le> sum_list (drop (nat (mx + 1)) hist)"
      by (intro sum_list_drop_mono)
    moreover have "sum_list (take (nat mn) hist) + sum_list (drop (nat mn) hist) = ?tot"
      by (metis append_take_drop_id sum_list_append)
    ultimately have "?tot \<le> sum_list (take (nat mn) hist) + sum_list (drop (nat (mx + 1)) hist)"
      by linarith
    with p s pos show False
      by (simp add: ge_one_percent_iff)
  qed
  with mn mx pos show ?thesis
    by (simp add: analyse_histogram_def)
qed

theorem analysis_bounds_ordered_witness:
  "length (replicate 100 0 @ replicate 51 10 @ replicate 105 (0::int)) = 256
   \<and> 0 < sum_list (replicate 100 0 @ replicate 51 10 @ replicate 105 (0::int))
   \<and> (\<exists>a. analyse_histogram (replicate 100 0 @ replicate 51 10 @ replicate 105 0) = Inr a
           \<and> min_val a \<le> max_val a \<and> (skewed a \<longleftrightarrow> max_val a - min_val a < 200))"
proof -
  let ?h = "replicate 100 0 @ replicate 51 10 @ replicate 105 (0::int)"
  have 1: "length ?h = 256" by simp
  have 2: "\<forall>x\<in>set ?h. 0 \<le> x" by auto
  have 3: "0 < sum_list ?h" by (simp add: sum_list_replicate)
  from 1 3 analysis_bounds_ordered [OF 1 2 3] show ?thesis by (intro conjI)
qed

section \<open>Properties of the level adjustment\<close>

lemma scale_clip_floor:
  fixes a r :: int
  assumes r: "1 \<le> r" "r \<le> 255" and a: "- 255 \<le> a" "a \<le> 255"
  defines "V \<equiv> np_clip (fl (fl (of_int a / of_int r) * 255)) 0 255"
  shows "0 \<le> V \<and> \<lfloor>V\<rfloor> = max 0 (min 255 (a * 255 div r))"
proof -
  let ?A = "of_int a :: rat" and ?R = "of_int r :: rat"
  have R: "1 \<le> ?R" "?R \<le> 255" using r by simp_all
  consider "a \<le> 0" | "r \<le> a" | "0 < a" "a < r" by linarith
  then show ?thesis
  proof cases
    case 1
    then have "?A / ?R \<le> 0" using R by (simp add: divide_le_0_iff)
    then have "fl (?A / ?R) \<le> 0" by (rule fl_nonpos)
    then have "fl (?A / ?R) * 255 \<le> 0" by simp
    then have "fl (fl (?A / ?R) * 255) \<le> 0" by (rule fl_nonpos)
    then have V: "V = 0" by (simp add: V_def np_clip_def)
    from 1 have "a * 255 \<le> 0" by simp
    then have "a * 255 div r \<le> 0" using r by (simp add: div_nonpos_pos_le0)
    with V show ?thesis by simp
  next
    case 2
    then have "?R \<le> ?A" by simp
    then have "2 powi 0 \<le> ?A / ?R" using R by (simp add: le_divide_eq)
    then have "2 powi 0 \<le> fl (?A / ?R)" by (rule fl_ge_pow2) simp
    then have "of_int 255 \<le> fl (?A / ?R) * 255" by simp
    then have "of_int 255 \<le> fl (fl (?A / ?R) * 255)" by (rule fl_ge_int) simp_all
    then have V: "V = 255" by (simp add: V_def np_clip_def)
    from 2 have "r * 255 div r \<le> a * 255 div r"
      using r by (intro zdiv_mono1) simp_all
    then have "255 \<le> a * 255 div r" using r by simp
    with V show ?thesis by simp
  next
    case 3
    define n where "n = a * 255 div r"
    define rho where "rho = a * 255 mod r"
    have eq: "a * 255 = n * r + rho" by (simp add: n_def rho_def)
    have rho: "0 \<le> rho" "rho < r" using r by (simp_all add: rho_def)
    have n0: "0 \<le> n" using 3 r by (simp add: n_def pos_imp_zdiv_nonneg_iff)
    have "a * 255 < 255 * r" using 3 by simp
    with eq rho have "n * r < 255 * r" by linarith
    then have n255: "n < 255" using r by simp
    from 3 have "1 \<le> a" "a + 1 \<le> r" by simp_all
    then have "(of_int 1 :: rat) \<le> of_int a" "(of_int (a + 1) :: rat) \<le> of_int r"
      by (simp_all only: of_int_le_iff)
    then have A: "1 \<le> ?A" "?A + 1 \<le> ?R" by simp_all
    have eqr: "?A * 255 = of_int n * ?R + of_int rho"
      using eq by (metis of_int_add of_int_mult of_int_numeral)
    show ?thesis
    proof (cases "rho = 0")
      case True
      with eqr R have q: "?A / ?R = of_int n / 255" by (simp add: field_simps)
      have "fl (fl (of_int n / 255) * 255) = of_int n"
        using n0 n255 by (intro fl_scale_255) simp_all
      then have "V = np_clip (of_int n) 0 255" by (simp only: V_def q)
      moreover have "(0::rat) \<le> of_int n" "(of_int n :: rat) \<le> 255"
        using n0 n255 by simp_all
      ultimately have "V = of_int n" by (simp add: np_clip_def)
      with n0 n255 show ?thesis by (simp add: n_def)
    next
      case False
      with rho have "1 \<le> rho" "rho + 1 \<le> r" by simp_all
      then have "(of_int 1 :: rat) \<le> of_int rho" "(of_int (rho + 1) :: rat) \<le> of_int r"
        by (simp_all only: of_int_le_iff)
      then have rr: "(1::rat) \<le> of_int rho" "of_int rho + 1 \<le> ?R" by simp_all
      define v where "v = ?A * 255 / ?R"
      have v: "v = of_int n + of_int rho / ?R"
        using R by (simp add: v_def eqr field_simps)
      have "1 / 255 \<le> of_int rho / ?R" "of_int rho / ?R \<le> 1 - 1 / 255"
        using rr R by (simp_all add: field_simps)
      with v have vb: "of_int n + 1 / 255 \<le> v" "v \<le> of_int n + 1 - 1 / 255"
        by simp_all
      define x0 where "x0 = ?A / ?R"
      have "2 powi (- 8) \<le> x0" "x0 < 2 powi 0"
        using A R by (simp_all add: x0_def field_simps)
      then have "\<bar>fl x0 - x0\<bar> \<le> 2 powi (0 - 54)"
        by (rule fl_error_upto) simp
      then have ex: "\<bar>fl x0 - x0\<bar> \<le> 1 / 2 ^ 54" by simp
      define y0 where "y0 = fl x0 * 255"
      have "y0 - v = 255 * (fl x0 - x0)"
        by (simp add: y0_def v_def x0_def)
      then have "\<bar>y0 - v\<bar> = \<bar>255\<bar> * \<bar>fl x0 - x0\<bar>" by (simp only: abs_mult)
      with ex have "\<bar>y0 - v\<bar> \<le> 255 / 2 ^ 54" by simp
      then have ey: "\<bar>y0 - v\<bar> \<le> 1 / 1000" by simp
      have "r \<le> a * 255" using r \<open>1 \<le> a\<close> by simp
      then have "r div r \<le> a * 255 div r"
        using r by (intro zdiv_mono1) simp_all
      then have n1: "1 \<le> n" using r by (simp add: n_def)
      have "(of_int 1 :: rat) \<le> of_int n" "(of_int n :: rat) \<le> of_int 254"
        using n1 n255 by (simp_all only: of_int_le_iff)
      then have nr: "(1::rat) \<le> of_int n" "(of_int n :: rat) \<le> 254"
        by simp_all
      have "1 / 2 \<le> y0" "y0 < 256"
        using ey vb nr by linarith+
      then have "2 powi (- 1) \<le> y0" "y0 < 2 powi 8"
        by simp_all
      then have "\<bar>fl y0 - y0\<bar> \<le> 2 powi (8 - 54)"
        by (rule fl_error_upto) simp
      then have "\<bar>fl y0 - y0\<bar> \<le> 1 / 1000" by simp
      with ey vb have fb: "of_int n \<le> fl y0" "fl y0 < of_int n + 1"
        by linarith+
      with nr have "V = fl y0"
        by (simp add: V_def np_clip_def y0_def x0_def)
      moreover from fb have "\<lfloor>fl y0\<rfloor> = n" by (simp add: floor_unique)
      moreover have "0 \<le> fl y0" using fb nr by linarith
      ultimately show ?thesis using n0 n255 by (simp add: n_def)
    qed
  qed
qed

lemma adjust_pixel_div:
  assumes "0 \<le> mn" "mn < mx" "mx \<le> 255"
  shows "adjust_pixel mn (mx - mn) p
         = word_of_int (max 0 (min 255 ((uint p - mn) * 255 div (mx - mn))))"
proof -
  define a where "a = uint p - mn"
  define r where "r = mx - mn"
  have p: "0 \<le> uint p" "uint p \<le> 255"
    using uint_bounded [of p] by simp_all
  have ar: "1 \<le> r" "r \<le> 255" "- 255 \<le> a" "a \<le> 255"
    unfolding a_def r_def using assms p by linarith+
  have "fl (of_int mn) = of_int mn" "fl (of_int r) = of_int r" "fl (of_int a) = of_int a"
    using assms ar by (intro fl_of_int; simp)+
  then have "adjust_pixel mn r p
             = astype_uint8 (np_clip (fl (fl (of_int a / of_int r) * 255)) 0 255)"
    by (simp add: adjust_pixel_def a_def)
  with scale_clip_floor [OF ar] show ?thesis
    by (simp add: astype_uint8_def a_def r_def)
qed

text \<open>
  C2 (as amended). For every grid and every pair of intensity bounds
  \<open>0 \<le> min_val < max_val \<le> 255\<close>, \<open>apply_level_adjustment\<close> maps each pixel value \<open>in\<close>
  to \<open>(in - min_val) * 255 / (max_val - min_val)\<close> rounded down to an integer and
  clamped to [0, 255]; the fractional part is dropped, not rounded to the nearest integer.
\<close>

theorem level_adjustment_truncates:
  assumes "0 \<le> mn" "mn < mx" "mx \<le> 255"
  shows "apply_level_adjustment arr mn mx
         = map (map (\<lambda>p. word_of_int (max 0 (min 255 ((uint p - mn) * 255 div (mx - mn)))))) arr"
  using assms by (simp add: apply_level_adjustment_def Let_def adjust_pixel_div)

theorem level_adjustment_truncates_witness:
  "(0::int) \<le> 0 \<and> (0::int) < 200 \<and> (200::int) \<le> 255
   \<and> apply_level_adjustment [[199, 0], [100, 255]] 0 200 = [[253, 0], [127, 255]]"
  using level_adjustment_truncates [of 0 200 "[[199, 0], [100, 255]]"] by simp

text \<open>
  With bounds 0 and 200 the pixel 199 is mapped to 253, while
  \<open>199 / 200 * 255 = 253.725\<close> rounded to the nearest integer is 254.
\<close>

theorem level_adjustment_nearest_counterexample:
  "apply_level_adjustment [[199]] 0 200 = [[253]]
   \<and> rhe (np_clip ((199 - 0) / (200 - 0) * 255) 0 255) = 254"
proof -
  have "adjust_pixel 0 (200 - 0) 199
        = word_of_int (max 0 (min 255 ((uint (199::pixel) - 0) * 255 div (200 - 0))))"
    by (rule adjust_pixel_div) simp_all
  then have "adjust_pixel 0 200 199 = 253" by simp
  then have "apply_level_adjustment [[199]] 0 200 = [[253]]"
    by (simp add: apply_level_adjustment_def)
  moreover have "rhe (np_clip ((199 - 0) / (200 - 0) * 255) 0 255) = 254"
    by (rule rhe_eqI) (simp add: np_clip_def)
  ultimately show ?thesis by simp
qed

text \<open>
  C9. With \<open>min_val = 0\<close> and \<open>max_val = 255\<close>, \<open>apply_level_adjustment\<close> returns every
  grid unchanged.
\<close>

theorem level_adjustment_identity:
  "apply_level_adjustment G 0 255 = G"
proof -
  have "adjust_pixel 0 (255 - 0) p = p" for p
  proof -
    have "0 \<le> uint p" "uint p \<le> 255"
      using uint_bounded [of p] by simp_all
    then have "max 0 (min 255 ((uint p - 0) * 255 div (255 - 0))) = uint p" by simp
    moreover have "adjust_pixel 0 (255 - 0) p
        = word_of_int (max 0 (min 255 ((uint p - 0) * 255 div (255 - 0))))"
      by (rule adjust_pixel_div) simp_all
    ultimately show ?thesis by simp
  qed
  then have "map (map (adjust_pixel 0 255)) G = G"
    by (simp add: map_idI)
  then show ?thesis by (simp add: apply_level_adjustment_def)
qed

end
